theory Spec2Isabelle
  imports Complex_Main
begin

section \<open>Splitting an image into overlapping parts (split.py)\<close>

text \<open>
  The embedding follows \<^verbatim>\<open>src/split.py\<close>. Python's integers are \<open>int\<close>. The
  floating-point values of the source (\<^verbatim>\<open>overlap_frac\<close>, \<^verbatim>\<open>part_nominal\<close> and the
  products that are rounded) are modelled by exact rationals, and Python's one-argument
  \<^verbatim>\<open>round\<close> by rounding to the nearest integer with ties going to the even neighbour.
  The source's variable \<^verbatim>\<open>total\<close> is written \<open>tot\<close>, as \<open>total\<close> is a constant of HOL.
  The image enters only through \<^verbatim>\<open>img.shape[:2]\<close>, so it is modelled by the pair
  \<open>(h, w)\<close>.
\<close>

subsection \<open>Data\<close>

type_synonym box = "int \<times> int \<times> int \<times> int"
  \<comment> \<open>a crop box \<open>(y0, y1, x0, x1)\<close>\<close>

datatype error = ZeroDivisionError

subsection \<open>Python's \<^verbatim>\<open>round\<close> on a real argument\<close>

definition py_round :: "rat \<Rightarrow> int" where
  "py_round x =
     (let f = \<lfloor>x\<rfloor>; d = x - of_int f
      in if d < 1 / 2 then f
         else if 1 / 2 < d then f + 1
         else if even f then f else f + 1)"

subsection \<open>\<^verbatim>\<open>choose_num_parts\<close>\<close>

definition choose_num_parts :: "int \<Rightarrow> int" where
  "choose_num_parts long_dim =
     (if long_dim \<ge> 5000 then 5
      else if long_dim \<ge> 3500 then 4
      else if long_dim \<ge> 2200 then 3
      else if long_dim \<ge> 1000 then 2
      else 2)"

subsection \<open>\<^verbatim>\<open>split_image_with_overlap\<close>\<close>

text \<open>
  The first loop of the function, \<^verbatim>\<open>for i in range(num_parts)\<close>, as a recursion over
  the remaining indices with the running \<^verbatim>\<open>start\<close>. The \<^verbatim>\<open>break\<close> is taken after the
  box of the current iteration has been appended.
\<close>

fun stride_loop ::
  "int \<Rightarrow> int \<Rightarrow> int \<Rightarrow> int \<Rightarrow> int \<Rightarrow> rat \<Rightarrow> int \<Rightarrow> int list \<Rightarrow> int \<Rightarrow> box list" where
  "stride_loop h w tot num_parts axis part_nominal step [] start = []"
| "stride_loop h w tot num_parts axis part_nominal step (i # idxs) start =
     (let end0 = start + py_round part_nominal;
          end1 = (if i = num_parts - 1 then tot else end0);
          start_clamped = max 0 (min (tot - 1) start);
          end_clamped = max 1 (min tot end1);
          b = (if axis = 1 then (0, h, start_clamped, end_clamped)
               else (start_clamped, end_clamped, 0, w));
          start' = start + step
      in if start' \<ge> tot then [b]
         else b # stride_loop h w tot num_parts axis part_nominal step idxs start')"

text \<open>The second loop: the boxes rebuilt by evenly spaced starts.\<close>

definition even_box :: "int \<Rightarrow> int \<Rightarrow> int \<Rightarrow> int \<Rightarrow> int \<Rightarrow> int \<Rightarrow> box" where
  "even_box h w tot num_parts axis i =
     (let s = py_round (of_int i * (of_int tot / of_int num_parts));
          e = py_round (of_int (i + 1) * (of_int tot / of_int num_parts))
      in if axis = 1 then (0, h, s, e) else (s, e, 0, w))"

definition rebuild :: "int \<Rightarrow> int \<Rightarrow> int \<Rightarrow> int \<Rightarrow> int \<Rightarrow> box list" where
  "rebuild h w tot num_parts axis =
     map (even_box h w tot num_parts axis) [0..num_parts - 1]"

text \<open>The third loop: every box is clamped into the image and made non-empty.\<close>

definition final_box :: "int \<Rightarrow> int \<Rightarrow> box \<Rightarrow> box" where
  "final_box h w b =
     (case b of (y0, y1, x0, x1) \<Rightarrow>
        let y0' = max 0 (min (h - 1) y0);
            y1' = max (y0' + 1) (min h y1);
            x0' = max 0 (min (w - 1) x0);
            x1' = max (x0' + 1) (min w x1)
        in (y0', y1', x0', x1'))"

definition total_of :: "int \<times> int \<Rightarrow> int \<Rightarrow> int" where
  "total_of img axis = (case img of (h, w) \<Rightarrow> if axis = 1 then w else h)"

definition step_of :: "int \<Rightarrow> int \<Rightarrow> rat \<Rightarrow> int" where
  "step_of tot num_parts overlap_frac =
     (let part_nominal = of_int tot / of_int num_parts;
          step = py_round (part_nominal * (1 - overlap_frac))
      in if step < 1 then 1 else step)"

definition split_image_with_overlap ::
  "int \<times> int \<Rightarrow> int \<Rightarrow> rat \<Rightarrow> int \<Rightarrow> error + box list" where
  "split_image_with_overlap img num_parts overlap_frac axis =
     (case img of (h, w) \<Rightarrow>
        let tot = total_of img axis
        in if num_parts = 0 then Inl ZeroDivisionError
           else
             let part_nominal = of_int tot / of_int num_parts;
                 step = step_of tot num_parts overlap_frac;
                 boxes = stride_loop h w tot num_parts axis part_nominal step
                           [0..num_parts - 1] 0;
                 boxes' = (if int (length boxes) < num_parts
                           then rebuild h w tot num_parts axis else boxes)
             in Inr (map (final_box h w) boxes'))"

subsection \<open>Reading a box along the split axis\<close>

definition axis_start :: "int \<Rightarrow> box \<Rightarrow> int" where
  "axis_start axis b = (case b of (y0, y1, x0, x1) \<Rightarrow> if axis = 1 then x0 else y0)"

definition axis_end :: "int \<Rightarrow> box \<Rightarrow> int" where
  "axis_end axis b = (case b of (y0, y1, x0, x1) \<Rightarrow> if axis = 1 then x1 else y1)"

definition axis_range :: "int \<Rightarrow> box \<Rightarrow> int set" where
  "axis_range axis b = {axis_start axis b ..< axis_end axis b}"

definition valid_box :: "int \<Rightarrow> int \<Rightarrow> box \<Rightarrow> bool" where
  "valid_box h w b =
     (case b of (y0, y1, x0, x1) \<Rightarrow>
        0 \<le> y0 \<and> y0 < y1 \<and> y1 \<le> h \<and> 0 \<le> x0 \<and> x0 < x1 \<and> x1 \<le> w)"

definition full_span :: "int \<Rightarrow> int \<Rightarrow> int \<Rightarrow> box \<Rightarrow> bool" where
  "full_span h w axis b =
     (case b of (y0, y1, x0, x1) \<Rightarrow>
        if axis = 1 then y0 = 0 \<and> y1 = h else x0 = 0 \<and> x1 = w)"

text \<open>
  The box appended by iteration \<open>i\<close> of the first loop when no earlier iteration has left
  the loop, so that the running start is \<open>i * step\<close>.
\<close>

definition stride_box :: "int \<Rightarrow> int \<Rightarrow> int \<Rightarrow> int \<Rightarrow> int \<Rightarrow> rat \<Rightarrow> int \<Rightarrow> int \<Rightarrow> box" where
  "stride_box h w tot num_parts axis part_nominal step i =
     (let start = i * step;
          end1 = (if i = num_parts - 1 then tot else start + py_round part_nominal);
          start_clamped = max 0 (min (tot - 1) start);
          end_clamped = max 1 (min tot end1)
      in if axis = 1 then (0, h, start_clamped, end_clamped)
         else (start_clamped, end_clamped, 0, w))"

text \<open>
  The boxes of a list form a chain along the split axis from 0 to \<open>T\<close>: the first one
  starts at 0, the last one ends at \<open>T\<close>, each next one starts no earlier than its
  predecessor starts and no later than its predecessor ends, and each one is a non-empty
  range inside \<open>[0, T)\<close>.
\<close>

definition axis_chain :: "int \<Rightarrow> int \<Rightarrow> box list \<Rightarrow> bool" where
  "axis_chain axis T bs \<longleftrightarrow>
     bs \<noteq> [] \<and> axis_start axis (hd bs) = 0 \<and> axis_end axis (last bs) = T
     \<and> (\<forall>k. Suc k < length bs \<longrightarrow>
            axis_start axis (bs ! k) \<le> axis_start axis (bs ! Suc k)
            \<and> axis_start axis (bs ! Suc k) \<le> axis_end axis (bs ! k))
     \<and> (\<forall>b \<in> set bs.
            0 \<le> axis_start axis b \<and> axis_start axis b < axis_end axis b \<and> axis_end axis b \<le> T)"

text \<open>
  The length of the common part of the ranges of two boxes along the split axis (zero
  when the ranges only touch, negative when there is a gap between them).
\<close>

definition overlap_len :: "int \<Rightarrow> box \<Rightarrow> box \<Rightarrow> int" where
  "overlap_len axis a b =
     min (axis_end axis a) (axis_end axis b) - max (axis_start axis a) (axis_start axis b)"

section \<open>The part count\<close>

text \<open>
  C6. For every positive \<open>long_dim\<close>, \<open>choose_num_parts\<close> returns the value of the
  threshold table: 5 from 5000 on, else 4 from 3500 on, else 3 from 2200 on, else 2. The
  value therefore lies in [2, 5], and it is 2 at 999, 1000 and 2199, 3 at 2200 and 3499,
  4 at 3500 and 4999, and 5 at 5000.
\<close>

theorem choose_num_parts_table:
  assumes "0 < long_dim"
  shows "choose_num_parts long_dim =
           (if long_dim \<ge> 5000 then 5 else if long_dim \<ge> 3500 then 4
            else if long_dim \<ge> 2200 then 3 else 2)
         \<and> 2 \<le> choose_num_parts long_dim \<and> choose_num_parts long_dim \<le> 5
         \<and> choose_num_parts 999 = 2 \<and> choose_num_parts 1000 = 2
         \<and> choose_num_parts 2199 = 2 \<and> choose_num_parts 2200 = 3
         \<and> choose_num_parts 3499 = 3 \<and> choose_num_parts 3500 = 4
         \<and> choose_num_parts 4999 = 4 \<and> choose_num_parts 5000 = 5"
  by (simp add: choose_num_parts_def)

theorem choose_num_parts_table_witness:
  "(0::int) < 2600 \<and> choose_num_parts 2600 = 3"
  using choose_num_parts_table [of 2600] by simp

section \<open>Rounding\<close>


lemma py_round_floor: "\<lfloor>x\<rfloor> \<le> py_round x \<and> py_round x \<le> \<lfloor>x\<rfloor> + 1"
  by (simp add: py_round_def Let_def)

lemma py_round_of_int: "py_round (of_int k) = k"
  by (simp add: py_round_def Let_def)

lemma py_round_upper: "of_int (py_round x) \<le> x + 1 / 2"
  unfolding py_round_def Let_def by (auto; linarith)

lemma py_round_lower: "x - 1 / 2 \<le> of_int (py_round x)"
  unfolding py_round_def Let_def by (auto; linarith)

lemma py_round_mono:
  assumes "x \<le> y"
  shows "py_round x \<le> py_round y"
proof (cases "\<lfloor>x\<rfloor> = \<lfloor>y\<rfloor>")
  case True
  with assms show ?thesis
    unfolding py_round_def Let_def by auto
next
  case False
  with assms have "\<lfloor>x\<rfloor> + 1 \<le> \<lfloor>y\<rfloor>"
    using floor_mono [of x y] by linarith
  with py_round_floor [of x] py_round_floor [of y] show ?thesis
    by linarith
qed

section \<open>The three loops\<close>

lemma length_stride_loop_le:
  "length (stride_loop h w tot n axis pn step idxs start) \<le> length idxs"
  by (induction idxs arbitrary: start) (simp_all add: Let_def)

lemma clamp_pair:
  fixes m :: int
  assumes "1 \<le> m"
  shows "0 \<le> max 0 (min (m - 1) a)
    \<and> max 0 (min (m - 1) a) < max (max 0 (min (m - 1) a) + 1) (min m b)
    \<and> max (max 0 (min (m - 1) a) + 1) (min m b) \<le> m"
  using assms by (simp add: max_def min_def)

lemma valid_final_box:
  assumes "1 \<le> h" and "1 \<le> w"
  shows "valid_box h w (final_box h w b)"
  using clamp_pair [OF assms(1)] clamp_pair [OF assms(2)]
  by (cases b) (simp add: valid_box_def final_box_def Let_def)

lemma length_rebuild: "0 \<le> n \<Longrightarrow> int (length (rebuild h w tot n axis)) = n"
  by (simp add: rebuild_def)

text \<open>The function returns whenever the part count is not zero, and then the list it
  returns is the repaired list of one of the two construction loops.\<close>

lemma split_returns:
  assumes "n \<noteq> 0"
  shows "split_image_with_overlap (h, w) n f axis =
           Inr (map (final_box h w)
                 (let tot = total_of (h, w) axis;
                      boxes = stride_loop h w tot n axis (of_int tot / of_int n)
                                (step_of tot n f) [0..n - 1] 0
                  in if int (length boxes) < n then rebuild h w tot n axis else boxes))"
  using assms by (simp add: split_image_with_overlap_def Let_def)

lemma split_length:
  assumes "1 \<le> n"
  shows "\<exists>bs. split_image_with_overlap (h, w) n f axis = Inr bs \<and> int (length bs) = n"
proof -
  let ?tot = "total_of (h, w) axis"
  let ?boxes = "stride_loop h w ?tot n axis (of_int ?tot / of_int n) (step_of ?tot n f) [0..n - 1] 0"
  have le: "int (length ?boxes) \<le> n"
    using length_stride_loop_le [of h w ?tot n axis "of_int ?tot / of_int n" "step_of ?tot n f" "[0..n - 1]" 0] assms
    by simp
  have "n \<noteq> 0" using assms by simp
  from split_returns [OF this, of h w f axis] le assms show ?thesis
    by (auto simp add: Let_def length_rebuild)
qed

section \<open>Count, validity, totality and the orthogonal axis\<close>

text \<open>
  C1. For \<open>num_parts\<close> in {2, 3, 4, 5}, a total extent of at least \<open>num_parts\<close>, an
  overlap fraction in [0, 1/2] and either axis, the function returns exactly \<open>num_parts\<close>
  boxes: the stride loop never appends more than \<open>num_parts\<close> boxes, and when it appends
  fewer the rebuild replaces them by \<open>num_parts\<close> boxes.
\<close>

theorem split_count:
  assumes "2 \<le> num_parts" and "num_parts \<le> 5"
    and "num_parts \<le> total_of (h, w) axis"
    and "0 \<le> overlap_frac" and "overlap_frac \<le> 1 / 2"
  shows "\<exists>bs. split_image_with_overlap (h, w) num_parts overlap_frac axis = Inr bs
              \<and> int (length bs) = num_parts"
  using assms(1) split_length [of num_parts h w overlap_frac axis] by simp

theorem split_count_witness:
  "\<exists>bs. split_image_with_overlap (600, 1000) 3 (1 / 5) 1 = Inr bs \<and> int (length bs) = 3"
  using split_count [of 3 600 1000 1 "1 / 5"] by (simp add: total_of_def)

text \<open>
  C3. For an image of height and width at least 1, \<open>num_parts\<close> in [2, 5], an overlap
  fraction in [0, 1/2] and either axis, every returned box \<open>(y0, y1, x0, x1)\<close> satisfies
  \<open>0 \<le> y0 < y1 \<le> h\<close> and \<open>0 \<le> x0 < x1 \<le> w\<close>: the last loop establishes this on
  every box it emits.
\<close>

theorem split_valid:
  assumes "1 \<le> h" and "1 \<le> w"
    and "2 \<le> num_parts" and "num_parts \<le> 5"
    and "0 \<le> overlap_frac" and "overlap_frac \<le> 1 / 2"
  shows "\<exists>bs. split_image_with_overlap (h, w) num_parts overlap_frac axis = Inr bs
              \<and> (\<forall>b \<in> set bs. valid_box h w b)"
proof -
  have "num_parts \<noteq> 0" using assms(3) by simp
  from split_returns [OF this, of h w overlap_frac axis] valid_final_box [OF assms(1,2)]
  show ?thesis by auto
qed

theorem split_valid_witness:
  "\<exists>bs. split_image_with_overlap (600, 1000) 3 (1 / 5) 0 = Inr bs
        \<and> (\<forall>b \<in> set bs. valid_box 600 1000 b)"
  using split_valid [of 600 1000 3 "1 / 5" 0] by simp

text \<open>
  C8. With a total extent of at least 1, an overlap fraction in [0, 1/2] and \<open>num_parts\<close>
  in [2, 5], the function raises no error and returns a list of boxes. The only operation
  of the function that can raise is the division by \<open>num_parts\<close>; the three loops run over
  finite ranges.
\<close>

theorem split_never_fails:
  assumes "1 \<le> total_of (h, w) axis"
    and "0 \<le> overlap_frac" and "overlap_frac \<le> 1 / 2"
    and "2 \<le> num_parts" and "num_parts \<le> 5"
  shows "\<exists>bs. split_image_with_overlap (h, w) num_parts overlap_frac axis = Inr bs"
proof -
  have "num_parts \<noteq> 0" using assms(4) by simp
  from split_returns [OF this] show ?thesis by blast
qed

theorem split_never_fails_witness:
  "\<exists>bs. split_image_with_overlap (3, 2) 5 (1 / 2) 1 = Inr bs"
  using split_never_fails [of 3 2 1 "1 / 2" 5] by (simp add: total_of_def)

text \<open>The coordinates of the axis that is not split.\<close>

lemma full_span_stride_loop:
  "b \<in> set (stride_loop h w tot n axis pn step idxs start) \<Longrightarrow> full_span h w axis b"
  by (induction idxs arbitrary: start) (auto simp add: Let_def full_span_def split: if_splits)

lemma full_span_rebuild:
  "b \<in> set (rebuild h w tot n axis) \<Longrightarrow> full_span h w axis b"
  by (auto simp add: rebuild_def even_box_def Let_def full_span_def)

lemma full_span_final_box:
  assumes "1 \<le> h" and "1 \<le> w" and "full_span h w axis b"
  shows "full_span h w axis (final_box h w b)"
  using assms by (cases b) (auto simp add: full_span_def final_box_def Let_def)

text \<open>
  C9. For an image of height and width at least 1, every returned box spans the whole
  extent of the axis that is not split: with \<open>axis = 1\<close> (columns) it has \<open>y0 = 0\<close> and
  \<open>y1 = h\<close>, and with any other axis value, in particular \<open>axis = 0\<close> (rows), it has
  \<open>x0 = 0\<close> and \<open>x1 = w\<close>. The last loop leaves these coordinates as they are.
\<close>

theorem split_orthogonal_full:
  assumes "1 \<le> h" and "1 \<le> w" and "num_parts \<noteq> 0"
  shows "\<exists>bs. split_image_with_overlap (h, w) num_parts overlap_frac axis = Inr bs
              \<and> (\<forall>(y0, y1, x0, x1) \<in> set bs.
                    (axis = 1 \<longrightarrow> y0 = 0 \<and> y1 = h) \<and> (axis \<noteq> 1 \<longrightarrow> x0 = 0 \<and> x1 = w))"
proof -
  let ?tot = "total_of (h, w) axis"
  let ?boxes = "stride_loop h w ?tot num_parts axis (of_int ?tot / of_int num_parts)
                  (step_of ?tot num_parts overlap_frac) [0..num_parts - 1] 0"
  let ?bs = "if int (length ?boxes) < num_parts then rebuild h w ?tot num_parts axis else ?boxes"
  have "\<forall>b \<in> set ?bs. full_span h w axis b"
    using full_span_stride_loop full_span_rebuild by auto
  then have "\<forall>b \<in> set (map (final_box h w) ?bs). full_span h w axis b"
    using full_span_final_box [OF assms(1,2)] by auto
  moreover have "split_image_with_overlap (h, w) num_parts overlap_frac axis
      = Inr (map (final_box h w) ?bs)"
    using split_returns [OF assms(3), of h w overlap_frac axis] by (simp add: Let_def)
  ultimately show ?thesis
    by (auto simp add: full_span_def split: if_splits)
qed

theorem split_orthogonal_full_witness:
  "\<exists>bs. split_image_with_overlap (600, 1000) 3 (1 / 5) 0 = Inr bs
        \<and> (\<forall>(y0, y1, x0, x1) \<in> set bs.
              ((0::int) = 1 \<longrightarrow> y0 = 0 \<and> y1 = 600) \<and> ((0::int) \<noteq> 1 \<longrightarrow> x0 = 0 \<and> x1 = 1000))"
  using split_orthogonal_full [of 600 1000 3 "1 / 5" 0] by simp

section \<open>The two construction paths\<close>

lemma stride_loop_full:
  assumes "0 \<le> step" and "(n - 1) * step < tot"
  shows "stride_loop h w tot n axis pn step [i..n - 1] (i * step)
           = map (stride_box h w tot n axis pn step) [i..n - 1]"
proof (induction "nat (n - i)" arbitrary: i)
  case 0
  then show ?case by simp
next
  case (Suc m)
  then have le: "i \<le> n - 1" by linarith
  have rec: "[i..n - 1] = i # [i + 1..n - 1]"
    using le by (rule upto_rec1)
  have IH: "stride_loop h w tot n axis pn step [i + 1..n - 1] ((i + 1) * step)
              = map (stride_box h w tot n axis pn step) [i + 1..n - 1]"
    using Suc by (intro Suc.hyps(1)) linarith
  show ?case
  proof (cases "i = n - 1")
    case True
    then show ?thesis
      by (simp add: rec stride_box_def Let_def)
  next
    case False
    with le have "i + 1 \<le> n - 1" by linarith
    then have "(i + 1) * step \<le> (n - 1) * step"
      using assms(1) by (rule mult_right_mono)
    with assms(2) have "\<not> tot \<le> i * step + step"
      by (simp add: algebra_simps)
    then show ?thesis
      using IH by (simp add: rec stride_box_def Let_def algebra_simps)
  qed
qed

lemma stride_loop_short:
  assumes "1 \<le> step" and "tot \<le> (n - 1) * step"
  shows "i \<le> n - 2 \<Longrightarrow>
         int (length (stride_loop h w tot n axis pn step [i..n - 1] (i * step))) < n - i"
proof (induction "nat (n - i)" arbitrary: i)
  case 0
  then show ?case by simp
next
  case (Suc m)
  have rec: "[i..n - 1] = i # [i + 1..n - 1]"
    using Suc.prems by (intro upto_rec1) linarith
  show ?case
  proof (cases "tot \<le> i * step + step")
    case True
    then show ?thesis
      using Suc.prems by (simp add: rec Let_def)
  next
    case False
    with assms(2) have "(i + 1) * step < (n - 1) * step"
      by (simp add: algebra_simps)
    with assms(1) have "i + 1 < n - 1"
      by (simp add: mult_less_cancel_right)
    then have le: "i + 1 \<le> n - 2" by linarith
    have "int (length (stride_loop h w tot n axis pn step [i + 1..n - 1] ((i + 1) * step)))
            < n - (i + 1)"
      using Suc.hyps(2) le by (intro Suc.hyps(1)) linarith+
    then show ?thesis
      using False by (simp add: rec Let_def algebra_simps)
  qed
qed

lemma step_of_ge1: "1 \<le> step_of tot n f"
  by (simp add: step_of_def Let_def)

lemma split_main:
  assumes "1 \<le> n" and "(n - 1) * step_of (total_of (h, w) axis) n f < total_of (h, w) axis"
  shows "split_image_with_overlap (h, w) n f axis =
           Inr (map (\<lambda>i. final_box h w (stride_box h w (total_of (h, w) axis) n axis
                     (of_int (total_of (h, w) axis) / of_int n)
                     (step_of (total_of (h, w) axis) n f) i)) [0..n - 1])"
proof -
  let ?tot = "total_of (h, w) axis"
  let ?step = "step_of ?tot n f"
  have "0 \<le> ?step" using step_of_ge1 [of ?tot n f] by linarith
  from stride_loop_full [OF this assms(2), of h w axis "of_int ?tot / of_int n" 0]
  have eq: "stride_loop h w ?tot n axis (of_int ?tot / of_int n) ?step [0..n - 1] 0
          = map (stride_box h w ?tot n axis (of_int ?tot / of_int n) ?step) [0..n - 1]"
    by simp
  have "n \<noteq> 0" using assms(1) by simp
  then show ?thesis
    using assms(1) by (simp add: split_image_with_overlap_def Let_def eq comp_def)
qed

lemma split_fallback:
  assumes "2 \<le> n" and "total_of (h, w) axis \<le> (n - 1) * step_of (total_of (h, w) axis) n f"
  shows "split_image_with_overlap (h, w) n f axis =
           Inr (map (\<lambda>i. final_box h w (even_box h w (total_of (h, w) axis) n axis i))
                  [0..n - 1])"
proof -
  let ?tot = "total_of (h, w) axis"
  let ?step = "step_of ?tot n f"
  from stride_loop_short [OF step_of_ge1 assms(2), of 0 h w axis "of_int ?tot / of_int n"]
  have "int (length (stride_loop h w ?tot n axis (of_int ?tot / of_int n) ?step [0..n - 1] 0)) < n"
    using assms(1) by simp
  moreover have "n \<noteq> 0" using assms(1) by simp
  ultimately show ?thesis
    by (simp add: split_image_with_overlap_def Let_def rebuild_def comp_def)
qed

subsection \<open>Projections\<close>

lemma axis_start_final_box:
  "axis_start axis (final_box h w b)
     = max 0 (min (total_of (h, w) axis - 1) (axis_start axis b))"
  by (cases b) (simp add: axis_start_def final_box_def total_of_def Let_def)

lemma axis_end_final_box:
  "axis_end axis (final_box h w b)
     = max (max 0 (min (total_of (h, w) axis - 1) (axis_start axis b)) + 1)
           (min (total_of (h, w) axis) (axis_end axis b))"
  by (cases b) (simp add: axis_start_def axis_end_def final_box_def total_of_def Let_def)

lemma axis_start_stride_box:
  "axis_start axis (stride_box h w tot n axis pn step i) = max 0 (min (tot - 1) (i * step))"
  by (simp add: axis_start_def stride_box_def Let_def)

lemma axis_end_stride_box:
  "axis_end axis (stride_box h w tot n axis pn step i)
     = max 1 (min tot (if i = n - 1 then tot else i * step + py_round pn))"
  by (simp add: axis_end_def stride_box_def Let_def)

lemma axis_start_even_box:
  "axis_start axis (even_box h w tot n axis i)
     = py_round (of_int i * (of_int tot / of_int n))"
  by (simp add: axis_start_def even_box_def Let_def)

lemma axis_end_even_box:
  "axis_end axis (even_box h w tot n axis i)
     = py_round (of_int (i + 1) * (of_int tot / of_int n))"
  by (simp add: axis_end_def even_box_def Let_def)

lemma axis_final_box_bounds:
  assumes "1 \<le> total_of (h, w) axis"
  shows "0 \<le> axis_start axis (final_box h w b)
       \<and> axis_start axis (final_box h w b) < axis_end axis (final_box h w b)
       \<and> axis_end axis (final_box h w b) \<le> total_of (h, w) axis"
  unfolding axis_start_final_box axis_end_final_box
  using assms by (rule clamp_pair)

subsection \<open>From an indexed family of boxes to the list\<close>

lemma nth_map_upto:
  assumes "k < nat n"
  shows "map G [0..n - 1] ! k = G (int k)"
  using assms by simp

lemma axis_chain_map_upto:
  assumes n: "1 \<le> n"
    and first: "axis_start axis (G 0) = 0"
    and last: "axis_end axis (G (n - 1)) = T"
    and adj: "\<And>i. 0 \<le> i \<Longrightarrow> i + 1 < n \<Longrightarrow>
               axis_start axis (G i) \<le> axis_start axis (G (i + 1))
               \<and> axis_start axis (G (i + 1)) \<le> axis_end axis (G i)"
    and bnd: "\<And>i. 0 \<le> i \<Longrightarrow> i < n \<Longrightarrow>
               0 \<le> axis_start axis (G i) \<and> axis_start axis (G i) < axis_end axis (G i)
               \<and> axis_end axis (G i) \<le> T"
  shows "axis_chain axis T (map G [0..n - 1])"
proof -
  let ?bs = "map G [0..n - 1]"
  have ne: "[0..n - 1] \<noteq> []" using n by simp
  have hd: "hd [0..n - 1] = 0" using n by (simp add: upto_rec1)
  have lst: "last [0..n - 1] = n - 1" using n by (simp add: upto_rec2)
  have 1: "?bs \<noteq> []" using ne by simp
  have 2: "axis_start axis (hd ?bs) = 0" using ne hd first by (simp add: hd_map)
  have 3: "axis_end axis (last ?bs) = T" using ne lst last by (simp add: last_map)
  have 4: "axis_start axis (?bs ! k) \<le> axis_start axis (?bs ! Suc k)
           \<and> axis_start axis (?bs ! Suc k) \<le> axis_end axis (?bs ! k)"
    if "Suc k < length ?bs" for k
  proof -
    from that have k: "int k + 1 < n" by simp
    have "?bs ! k = G (int k)" "?bs ! Suc k = G (int k + 1)"
      using k by (simp_all add: add.commute)
    with adj [of "int k"] k show ?thesis by simp
  qed
  have 5: "0 \<le> axis_start axis b \<and> axis_start axis b < axis_end axis b \<and> axis_end axis b \<le> T"
    if "b \<in> set ?bs" for b
  proof -
    from that obtain i where "0 \<le> i" "i < n" "b = G i" by auto
    with bnd [of i] show ?thesis by simp
  qed
  from 1 2 3 4 5 show ?thesis
    unfolding axis_chain_def by blast
qed

subsection \<open>The evenly spaced starts\<close>

lemma even_start_mono:
  assumes "0 \<le> tot" and "0 < n" and "i \<le> j"
  shows "py_round (of_int i * (of_int tot / of_int n))
           \<le> py_round (of_int j * (of_int tot / of_int n))"
proof -
  have "(0::rat) \<le> of_int tot / of_int n" using assms(1,2) by simp
  moreover have "(of_int i :: rat) \<le> of_int j" using assms(3) by simp
  ultimately have "of_int i * (of_int tot / of_int n) \<le> of_int j * (of_int tot / of_int n :: rat)"
    by (rule mult_right_mono [rotated])
  then show ?thesis by (rule py_round_mono)
qed

lemma even_start_0: "py_round (of_int 0 * (of_int tot / of_int n)) = 0"
  using py_round_of_int [of 0] by simp

lemma even_start_n:
  assumes "0 < n"
  shows "py_round (of_int n * (of_int tot / of_int n)) = tot"
  using assms py_round_of_int [of tot] by simp

lemma even_start_range:
  assumes "0 \<le> tot" and "0 < n" and "0 \<le> i" and "i \<le> n"
  shows "0 \<le> py_round (of_int i * (of_int tot / of_int n))
       \<and> py_round (of_int i * (of_int tot / of_int n)) \<le> tot"
  using even_start_mono [OF assms(1,2,3)] even_start_mono [OF assms(1,2,4)]
    even_start_0 [of tot n] even_start_n [OF assms(2), of tot]
  by simp

subsection \<open>The chain in the rebuilt list\<close>

lemma fallback_chain:
  assumes T: "1 \<le> total_of (h, w) axis" and n: "1 \<le> n"
  shows "axis_chain axis (total_of (h, w) axis)
           (map (\<lambda>i. final_box h w (even_box h w (total_of (h, w) axis) n axis i)) [0..n - 1])"
proof (rule axis_chain_map_upto [OF n])
  let ?T = "total_of (h, w) axis"
  let ?s = "\<lambda>i. py_round (of_int i * (of_int ?T / of_int n))"
  have T0: "0 \<le> ?T" and n0: "0 < n" using T n by simp_all
  show "axis_start axis (final_box h w (even_box h w ?T n axis 0)) = 0"
    using T even_start_0 [of ?T n]
    by (simp add: axis_start_final_box axis_start_even_box)
  have "?s (n - 1 + 1) = ?T" using even_start_n [OF n0, of ?T] by simp
  then show "axis_end axis (final_box h w (even_box h w ?T n axis (n - 1))) = ?T"
    using T unfolding axis_end_final_box axis_start_even_box axis_end_even_box
    by (simp add: max_def min_def)
  show "axis_start axis (final_box h w (even_box h w ?T n axis i))
          \<le> axis_start axis (final_box h w (even_box h w ?T n axis (i + 1)))
        \<and> axis_start axis (final_box h w (even_box h w ?T n axis (i + 1)))
          \<le> axis_end axis (final_box h w (even_box h w ?T n axis i))"
    if "0 \<le> i" "i + 1 < n" for i
  proof -
    have "?s i \<le> ?s (i + 1)"
      by (rule even_start_mono [OF T0 n0]) simp
    then show ?thesis
      unfolding axis_start_final_box axis_end_final_box axis_start_even_box axis_end_even_box
      by (simp add: max_def min_def)
  qed
  show "0 \<le> axis_start axis (final_box h w (even_box h w ?T n axis i))
        \<and> axis_start axis (final_box h w (even_box h w ?T n axis i))
            < axis_end axis (final_box h w (even_box h w ?T n axis i))
        \<and> axis_end axis (final_box h w (even_box h w ?T n axis i)) \<le> ?T"
    if "0 \<le> i" "i < n" for i
    by (rule axis_final_box_bounds [OF T])
qed

subsection \<open>The chain in the list of the stride loop\<close>

lemma round_nominal_ge_step:
  assumes "n \<le> tot" and "1 \<le> n" and "0 \<le> f"
  shows "step_of tot n f \<le> py_round (of_int tot / of_int n)"
proof -
  let ?pn = "of_int tot / of_int n :: rat"
  have "(1::rat) \<le> ?pn" using assms(1,2) by (simp add: pos_le_divide_eq)
  then have one: "1 \<le> py_round ?pn"
    using py_round_mono [of 1 ?pn] py_round_of_int [of 1] by simp
  have "?pn * (1 - f) \<le> ?pn * 1"
    using assms(3) \<open>1 \<le> ?pn\<close> by (intro mult_left_mono) simp_all
  then have "py_round (?pn * (1 - f)) \<le> py_round ?pn"
    using py_round_mono [of "?pn * (1 - f)" ?pn] by simp
  with one show ?thesis
    by (simp add: step_of_def Let_def)
qed

lemma main_chain:
  assumes n: "2 \<le> n" and f: "0 \<le> f"
    and main: "(n - 1) * step_of (total_of (h, w) axis) n f < total_of (h, w) axis"
  shows "axis_chain axis (total_of (h, w) axis)
           (map (\<lambda>i. final_box h w (stride_box h w (total_of (h, w) axis) n axis
                     (of_int (total_of (h, w) axis) / of_int n)
                     (step_of (total_of (h, w) axis) n f) i)) [0..n - 1])"
proof -
  let ?T = "total_of (h, w) axis"
  let ?step = "step_of ?T n f"
  let ?pn = "of_int ?T / of_int n :: rat"
  let ?G = "\<lambda>i. final_box h w (stride_box h w ?T n axis ?pn ?step i)"
  have step1: "1 \<le> ?step" by (rule step_of_ge1)
  have "(n - 1) * 1 \<le> (n - 1) * ?step"
    using step1 n by (intro mult_left_mono) simp_all
  with main have nT: "n \<le> ?T" by simp
  with n have T: "1 \<le> ?T" by simp
  have r: "?step \<le> py_round ?pn"
    using nT n f by (intro round_nominal_ge_step) simp_all
  have pos: "0 \<le> i * ?step" if "0 \<le> i" for i
    using that step1 by simp
  have below: "i * ?step \<le> ?T - 1" if "i \<le> n - 1" for i
  proof -
    have "i * ?step \<le> (n - 1) * ?step"
      using that step1 by (intro mult_right_mono) simp_all
    with main show ?thesis by simp
  qed
  have start: "axis_start axis (?G i) = i * ?step" if "0 \<le> i" "i < n" for i
    using pos [OF that(1)] below [of i] that(2)
    by (simp add: axis_start_final_box axis_start_stride_box max_def min_def)
  have n1: "1 \<le> n" using n by simp
  show ?thesis
  proof (rule axis_chain_map_upto [OF n1])
    show "axis_start axis (?G 0) = 0"
      using start [of 0] n by simp
    show "axis_end axis (?G (n - 1)) = ?T"
      using T unfolding axis_end_final_box axis_start_stride_box axis_end_stride_box
      by (simp add: max_def min_def)
    show "axis_start axis (?G i) \<le> axis_start axis (?G (i + 1))
          \<and> axis_start axis (?G (i + 1)) \<le> axis_end axis (?G i)"
      if "0 \<le> i" "i + 1 < n" for i
    proof -
      have s0: "axis_start axis (?G i) = i * ?step"
        using that by (intro start) simp_all
      have s1: "axis_start axis (?G (i + 1)) = i * ?step + ?step"
        using that start [of "i + 1"] by (simp add: algebra_simps)
      have b1: "i * ?step + ?step \<le> ?T - 1"
        using that below [of "i + 1"] by (simp add: algebra_simps)
      have ne: "i \<noteq> n - 1" using that by simp
      have e: "axis_end axis (?G i)
                 = max (i * ?step + 1) (min ?T (max 1 (min ?T (i * ?step + py_round ?pn))))"
        using s0 ne unfolding axis_end_final_box axis_end_stride_box
        by (simp add: axis_start_final_box)
      show ?thesis
        unfolding s0 s1 e using step1 r b1 pos [OF that(1)]
        by (simp add: max_def min_def)
    qed
    show "0 \<le> axis_start axis (?G i) \<and> axis_start axis (?G i) < axis_end axis (?G i)
          \<and> axis_end axis (?G i) \<le> ?T"
      if "0 \<le> i" "i < n" for i
      by (rule axis_final_box_bounds [OF T])
  qed
qed

lemma split_axis_chain:
  assumes "1 \<le> total_of (h, w) axis" and "2 \<le> n" and "0 \<le> f"
  shows "\<exists>bs. split_image_with_overlap (h, w) n f axis = Inr bs
              \<and> axis_chain axis (total_of (h, w) axis) bs"
proof (cases "(n - 1) * step_of (total_of (h, w) axis) n f < total_of (h, w) axis")
  case True
  have "1 \<le> n" using assms(2) by simp
  from split_main [OF this True] main_chain [OF assms(2,3) True]
  show ?thesis by simp
next
  case False
  then have fb: "total_of (h, w) axis \<le> (n - 1) * step_of (total_of (h, w) axis) n f"
    by simp
  have "1 \<le> n" using assms(2) by simp
  from split_fallback [OF assms(2) fb] fallback_chain [OF assms(1) this]
  show ?thesis by simp
qed

section \<open>Coverage and ordering\<close>

text \<open>Ranges that are linked each to the next cover the span from the first start to the
  last end.\<close>

lemma chain_cover:
  fixes lo hi :: "'a \<Rightarrow> int"
  assumes "bs \<noteq> []"
    and "\<forall>k. Suc k < length bs \<longrightarrow> lo (bs ! Suc k) \<le> hi (bs ! k)"
  shows "{lo (hd bs) ..< hi (last bs)} \<subseteq> (\<Union>b \<in> set bs. {lo b ..< hi b})"
  using assms
proof (induction bs rule: list_nonempty_induct)
  case (single x)
  then show ?case by simp
next
  case (cons x xs)
  have "\<forall>k. Suc k < length xs \<longrightarrow> lo (xs ! Suc k) \<le> hi (xs ! k)"
  proof (intro allI impI)
    fix k assume "Suc k < length xs"
    then have "Suc (Suc k) < length (x # xs)" by simp
    with cons.prems have "lo ((x # xs) ! Suc (Suc k)) \<le> hi ((x # xs) ! Suc k)" by blast
    then show "lo (xs ! Suc k) \<le> hi (xs ! k)" by simp
  qed
  with cons.IH have IH: "{lo (hd xs) ..< hi (last xs)} \<subseteq> (\<Union>b \<in> set xs. {lo b ..< hi b})"
    by blast
  have "Suc 0 < length (x # xs)" using cons.hyps by (cases xs) simp_all
  with cons.prems have "lo ((x # xs) ! Suc 0) \<le> hi ((x # xs) ! 0)" by blast
  then have link: "lo (hd xs) \<le> hi x"
    using cons.hyps by (simp add: hd_conv_nth)
  show ?case
  proof
    fix v assume v: "v \<in> {lo (hd (x # xs)) ..< hi (last (x # xs))}"
    show "v \<in> (\<Union>b \<in> set (x # xs). {lo b ..< hi b})"
    proof (cases "v < hi x")
      case True
      with v show ?thesis by simp
    next
      case False
      with link v cons.hyps have "v \<in> {lo (hd xs) ..< hi (last xs)}" by simp
      with IH have "v \<in> (\<Union>b \<in> set xs. {lo b ..< hi b})" by blast
      then show ?thesis by simp
    qed
  qed
qed

lemma axis_chain_union:
  assumes "axis_chain axis T bs"
  shows "(\<Union>b \<in> set bs. axis_range axis b) = {0 ..< T}"
proof
  show "(\<Union>b \<in> set bs. axis_range axis b) \<subseteq> {0 ..< T}"
    using assms by (auto simp add: axis_chain_def axis_range_def)
  have "{axis_start axis (hd bs) ..< axis_end axis (last bs)}
          \<subseteq> (\<Union>b \<in> set bs. {axis_start axis b ..< axis_end axis b})"
    using assms by (intro chain_cover) (simp_all add: axis_chain_def)
  then show "{0 ..< T} \<subseteq> (\<Union>b \<in> set bs. axis_range axis b)"
    using assms by (simp add: axis_chain_def axis_range_def)
qed

text \<open>
  C2. For a total extent of at least 1, \<open>num_parts\<close> in [2, 5] and an overlap fraction in
  [0, 1/2], the union of the half-open ranges \<open>[start, end)\<close> of the returned boxes along
  the split axis is exactly \<open>[0, total)\<close>: the first box starts at 0, the last box ends
  at the total extent, and each next box starts no later than its predecessor ends.
\<close>

theorem split_coverage:
  assumes "1 \<le> total_of (h, w) axis"
    and "2 \<le> num_parts" and "num_parts \<le> 5"
    and "0 \<le> overlap_frac" and "overlap_frac \<le> 1 / 2"
  shows "\<exists>bs. split_image_with_overlap (h, w) num_parts overlap_frac axis = Inr bs
              \<and> (\<Union>b \<in> set bs. axis_range axis b) = {0 ..< total_of (h, w) axis}
              \<and> bs \<noteq> []
              \<and> axis_start axis (hd bs) = 0
              \<and> axis_end axis (last bs) = total_of (h, w) axis
              \<and> (\<forall>k. Suc k < length bs \<longrightarrow>
                     axis_start axis (bs ! Suc k) \<le> axis_end axis (bs ! k))"
proof -
  from split_axis_chain [OF assms(1,2,4)] obtain bs
    where bs: "split_image_with_overlap (h, w) num_parts overlap_frac axis = Inr bs"
      and ch: "axis_chain axis (total_of (h, w) axis) bs"
    by blast
  from ch have "(\<Union>b \<in> set bs. axis_range axis b) = {0 ..< total_of (h, w) axis}"
    by (rule axis_chain_union)
  with bs ch show ?thesis
    by (simp add: axis_chain_def)
qed

theorem split_coverage_witness:
  "\<exists>bs. split_image_with_overlap (600, 1000) 3 (1 / 5) 1 = Inr bs
        \<and> (\<Union>b \<in> set bs. axis_range 1 b) = {0 ..< 1000}
        \<and> bs \<noteq> []
        \<and> axis_start 1 (hd bs) = 0
        \<and> axis_end 1 (last bs) = 1000
        \<and> (\<forall>k. Suc k < length bs \<longrightarrow> axis_start 1 (bs ! Suc k) \<le> axis_end 1 (bs ! k))"
  using split_coverage [of 600 1000 1 3 "1 / 5"] by (simp add: total_of_def)

text \<open>
  C7. For every valid input the returned boxes are ordered by ascending start coordinate
  along the split axis, whether they come from the stride loop or from the rebuild.
\<close>

theorem split_ordered:
  assumes "1 \<le> total_of (h, w) axis"
    and "2 \<le> num_parts" and "num_parts \<le> 5"
    and "0 \<le> overlap_frac" and "overlap_frac \<le> 1 / 2"
  shows "\<exists>bs. split_image_with_overlap (h, w) num_parts overlap_frac axis = Inr bs
              \<and> sorted (map (axis_start axis) bs)"
proof -
  from split_axis_chain [OF assms(1,2,4)] obtain bs
    where bs: "split_image_with_overlap (h, w) num_parts overlap_frac axis = Inr bs"
      and ch: "axis_chain axis (total_of (h, w) axis) bs"
    by blast
  from ch have "sorted (map (axis_start axis) bs)"
    by (simp add: sorted_iff_nth_Suc axis_chain_def)
  with bs show ?thesis by simp
qed

theorem split_ordered_witness:
  "\<exists>bs. split_image_with_overlap (2, 600) 5 (1 / 2) 0 = Inr bs
        \<and> sorted (map (axis_start 0) bs)"
  using split_ordered [of 2 600 0 5 "1 / 2"] by (simp add: total_of_def)

section \<open>A total extent below the part count\<close>

text \<open>More non-empty ranges than pixels: two of the ranges share a pixel.\<close>

lemma crowded_ranges_meet:
  assumes len: "T < int (length bs)" and T: "0 \<le> T"
    and bnd: "\<forall>b \<in> set bs. 0 \<le> axis_start axis b \<and> axis_start axis b < axis_end axis b
                \<and> axis_end axis b \<le> T"
  shows "\<exists>i j. i < j \<and> j < length bs \<and> axis_range axis (bs ! i) \<inter> axis_range axis (bs ! j) \<noteq> {}"
proof -
  let ?st = "map (axis_start axis) bs"
  have sub: "set ?st \<subseteq> {0 ..< T}" using bnd by auto
  have "\<not> distinct ?st"
  proof
    assume "distinct ?st"
    then have "card (set ?st) = length bs" using distinct_card [of ?st] by simp
    moreover have "card (set ?st) \<le> card {0 ..< T}"
      using sub by (intro card_mono) simp_all
    ultimately show False using len T by simp
  qed
  then obtain i j where ij: "i < length bs" "j < length bs" "i \<noteq> j" "?st ! i = ?st ! j"
    unfolding distinct_conv_nth by auto
  define a where "a = min i j"
  define b where "b = max i j"
  have ab: "a < b" "b < length bs" "axis_start axis (bs ! a) = axis_start axis (bs ! b)"
    using ij unfolding a_def b_def by (auto simp add: min_def max_def)
  have "bs ! a \<in> set bs" "bs ! b \<in> set bs" using ab by simp_all
  with bnd have "axis_start axis (bs ! a) < axis_end axis (bs ! a)"
    "axis_start axis (bs ! b) < axis_end axis (bs ! b)" by blast+
  with ab(3) have "axis_start axis (bs ! a) \<in> axis_range axis (bs ! a) \<inter> axis_range axis (bs ! b)"
    by (simp add: axis_range_def)
  with ab(1,2) show ?thesis by blast
qed

text \<open>
  C10. When the total extent is at least 1 but below \<open>num_parts\<close>, the function still
  returns exactly \<open>num_parts\<close> boxes, each non-empty and inside the image; as there are
  fewer pixels along the split axis than boxes, two of the returned boxes share a pixel
  along that axis, so the boxes are not pairwise disjoint.
\<close>

theorem split_small_total:
  assumes "1 \<le> h" and "1 \<le> w"
    and "total_of (h, w) axis < num_parts"
    and "2 \<le> num_parts" and "num_parts \<le> 5"
    and "0 \<le> overlap_frac" and "overlap_frac \<le> 1 / 2"
  shows "\<exists>bs. split_image_with_overlap (h, w) num_parts overlap_frac axis = Inr bs
              \<and> int (length bs) = num_parts
              \<and> (\<forall>b \<in> set bs. valid_box h w b)
              \<and> (\<exists>i j. i < j \<and> j < length bs
                    \<and> axis_range axis (bs ! i) \<inter> axis_range axis (bs ! j) \<noteq> {})"
proof -
  have "1 \<le> num_parts" using assms(4) by simp
  from split_length [OF this, of h w overlap_frac axis] obtain bs
    where bs: "split_image_with_overlap (h, w) num_parts overlap_frac axis = Inr bs"
      and len: "int (length bs) = num_parts"
    by blast
  have "num_parts \<noteq> 0" using assms(4) by simp
  from split_returns [OF this, of h w overlap_frac axis] bs valid_final_box [OF assms(1,2)]
  have val: "\<forall>b \<in> set bs. valid_box h w b" by auto
  then have bnd: "\<forall>b \<in> set bs. 0 \<le> axis_start axis b \<and> axis_start axis b < axis_end axis b
               \<and> axis_end axis b \<le> total_of (h, w) axis"
    by (auto simp add: valid_box_def axis_start_def axis_end_def total_of_def)
  have crowded: "total_of (h, w) axis < int (length bs)"
    using len assms(3) by simp
  have "0 \<le> total_of (h, w) axis"
    using assms(1,2) by (simp add: total_of_def)
  with crowded have "\<exists>i j. i < j \<and> j < length bs
      \<and> axis_range axis (bs ! i) \<inter> axis_range axis (bs ! j) \<noteq> {}"
    using bnd by (rule crowded_ranges_meet)
  with bs len val show ?thesis by blast
qed

theorem split_small_total_witness:
  "\<exists>bs. split_image_with_overlap (3, 2) 5 (1 / 2) 1 = Inr bs
        \<and> int (length bs) = 5
        \<and> (\<forall>b \<in> set bs. valid_box 3 2 b)
        \<and> (\<exists>i j. i < j \<and> j < length bs \<and> axis_range 1 (bs ! i) \<inter> axis_range 1 (bs ! j) \<noteq> {})"
  using split_small_total [of 3 2 1 5 "1 / 2"] by (simp add: total_of_def)

section \<open>The overlap of neighbouring boxes\<close>

lemma part_count_cases:
  fixes n :: int
  assumes "2 \<le> n" and "n \<le> 5"
  obtains "n = 2" | "n = 3" | "n = 4" | "n = 5"
  using assms by arith

text \<open>In the stride path no end before the last one is cut at the total extent.\<close>

lemma stride_end_fits:
  assumes n: "2 \<le> n" "n \<le> 5" and step: "1 \<le> step"
    and main: "(n - 1) * step < tot" and i: "i \<le> n - 2"
  shows "i * step + py_round (of_int tot / of_int n) \<le> tot"
proof -
  let ?r = "py_round (of_int tot / of_int n)"
  have r: "(of_int ?r :: rat) \<le> of_int tot / of_int n + 1 / 2"
    by (rule py_round_upper)
  have "(n - 1) * step \<le> tot - 1" using main by simp
  then have "(of_int ((n - 1) * step) :: rat) \<le> of_int (tot - 1)"
    by (simp only: of_int_le_iff)
  then have m: "(of_int n - 1) * of_int step \<le> (of_int tot :: rat) - 1"
    by simp
  have s: "(1::rat) \<le> of_int step" using step by simp
  have "(of_int ((n - 2) * step + ?r) :: rat) \<le> of_int tot"
    using n
  proof (cases rule: part_count_cases)
    case 1
    with r m s show ?thesis by simp
  next
    case 2
    with r m s show ?thesis by simp
  next
    case 3
    with r m s show ?thesis by simp
  next
    case 4
    with r m s show ?thesis by simp
  qed
  then have "(n - 2) * step + ?r \<le> tot"
    by (simp only: of_int_le_iff)
  moreover have "i * step \<le> (n - 2) * step"
    using i step by (intro mult_right_mono) simp_all
  ultimately show ?thesis by linarith
qed

lemma frac_of_nominal:
  fixes f pn :: rat
  assumes "0 \<le> f" and "f \<le> 1 / 2" and "0 \<le> pn"
  shows "0 \<le> f * pn \<and> f * pn \<le> pn / 2"
proof
  show "0 \<le> f * pn" using assms(1,3) by simp
  have "f * pn \<le> (1 / 2) * pn" using assms(2,3) by (rule mult_right_mono)
  then show "f * pn \<le> pn / 2" by simp
qed

lemma scale_one_minus:
  fixes p f :: rat
  shows "p * (1 - f) = p - f * p"
  by (simp add: algebra_simps)

lemma step_of_cases:
  "step_of tot n f = py_round (of_int tot / of_int n * (1 - f))
   \<or> (step_of tot n f = 1 \<and> py_round (of_int tot / of_int n * (1 - f)) < 1)"
  by (simp add: step_of_def Let_def)

text \<open>In the stride path the common part of neighbours is the rounded nominal size minus
  the step.\<close>

lemma main_start:
  assumes "1 \<le> step" and "(n - 1) * step < total_of (h, w) axis" and "0 \<le> i" and "i < n"
  shows "axis_start axis (final_box h w (stride_box h w (total_of (h, w) axis) n axis pn step i))
           = i * step"
proof -
  have "0 \<le> i * step" using assms(1,3) by simp
  moreover have "i * step \<le> (n - 1) * step"
    using assms(1,4) by (intro mult_right_mono) simp_all
  ultimately show ?thesis
    using assms(2)
    by (simp add: axis_start_final_box axis_start_stride_box max_def min_def)
qed

lemma main_end_last:
  assumes "1 \<le> total_of (h, w) axis"
  shows "axis_end axis (final_box h w (stride_box h w (total_of (h, w) axis) n axis pn step (n - 1)))
           = total_of (h, w) axis"
  using assms unfolding axis_end_final_box axis_start_stride_box axis_end_stride_box
  by (simp add: max_def min_def)

lemma main_end_inner:
  assumes "0 \<le> i * step" and "i \<noteq> n - 1" and "1 \<le> py_round pn"
    and "i * step + py_round pn \<le> total_of (h, w) axis"
  shows "axis_end axis (final_box h w (stride_box h w (total_of (h, w) axis) n axis pn step i))
           = i * step + py_round pn"
  using assms unfolding axis_end_final_box axis_start_stride_box axis_end_stride_box
  by (simp add: max_def min_def)

lemma main_overlap:
  assumes n: "2 \<le> n" "n \<le> 5" and f: "0 \<le> f"
    and main: "(n - 1) * step_of (total_of (h, w) axis) n f < total_of (h, w) axis"
    and i: "0 \<le> i" "i + 1 < n"
  shows "overlap_len axis
           (final_box h w (stride_box h w (total_of (h, w) axis) n axis
              (of_int (total_of (h, w) axis) / of_int n) (step_of (total_of (h, w) axis) n f) i))
           (final_box h w (stride_box h w (total_of (h, w) axis) n axis
              (of_int (total_of (h, w) axis) / of_int n) (step_of (total_of (h, w) axis) n f) (i + 1)))
         = py_round (of_int (total_of (h, w) axis) / of_int n) - step_of (total_of (h, w) axis) n f"
proof -
  let ?T = "total_of (h, w) axis"
  let ?step = "step_of ?T n f"
  let ?pn = "of_int ?T / of_int n :: rat"
  let ?r = "py_round ?pn"
  let ?G = "\<lambda>i. final_box h w (stride_box h w ?T n axis ?pn ?step i)"
  have step1: "1 \<le> ?step" by (rule step_of_ge1)
  have "(n - 1) * 1 \<le> (n - 1) * ?step"
    using step1 n by (intro mult_left_mono) simp_all
  with main have nT: "n \<le> ?T" by simp
  with n have T: "1 \<le> ?T" by simp
  have r: "?step \<le> ?r"
    using nT n f by (intro round_nominal_ge_step) simp_all
  with step1 have r1: "1 \<le> ?r" by simp
  have pos: "0 \<le> i * ?step" using i(1) step1 by simp
  have s0: "axis_start axis (?G i) = i * ?step"
    using i by (intro main_start [OF step1 main]) simp_all
  have s1: "axis_start axis (?G (i + 1)) = i * ?step + ?step"
    using i main_start [OF step1 main, of "i + 1" ?pn]
    by (simp add: algebra_simps)
  have fits: "i * ?step + ?r \<le> ?T"
    using i by (intro stride_end_fits [OF n step1 main]) simp
  have e0: "axis_end axis (?G i) = i * ?step + ?r"
    using i by (intro main_end_inner [OF pos _ r1 fits]) simp
  have e1: "i * ?step + ?r \<le> axis_end axis (?G (i + 1))"
  proof (cases "i + 1 = n - 1")
    case True
    have "axis_end axis (?G (i + 1)) = ?T"
      unfolding True by (rule main_end_last [OF T])
    with fits show ?thesis by simp
  next
    case False
    with i have "i + 1 \<le> n - 2" by simp
    then have "(i + 1) * ?step + ?r \<le> ?T"
      by (rule stride_end_fits [OF n step1 main])
    moreover have "0 \<le> (i + 1) * ?step" using i(1) step1 by simp
    ultimately have "axis_end axis (?G (i + 1)) = (i + 1) * ?step + ?r"
      using False by (intro main_end_inner [OF _ _ r1])
    then show ?thesis using step1 by (simp add: algebra_simps)
  qed
  show ?thesis
    unfolding overlap_len_def s0 s1 e0 using e1 step1 by (simp add: max_def min_def)
qed

lemma half_arith:
  fixes p fp :: rat
  assumes "fp \<le> p / 2" and "1 \<le> p"
  shows "1 / 2 \<le> p - fp"
  using assms by linarith

lemma tolerance_arith:
  fixes r s x pn fp :: rat
  assumes "x = pn - fp" and "r \<le> pn + 1 / 2" and "pn - 1 / 2 \<le> r"
    and "x - 1 / 2 \<le> s" and "s \<le> x + 1 / 2 \<or> (s = 1 \<and> 1 / 2 \<le> x)"
  shows "\<bar>r - s - fp\<bar> \<le> 1"
  using assms by linarith

lemma main_overlap_tolerance:
  assumes n: "2 \<le> n" and f: "0 \<le> f" "f \<le> 1 / 2" and nT: "n \<le> tot"
  shows "0 \<le> py_round (of_int tot / of_int n) - step_of tot n f
       \<and> \<bar>of_int (py_round (of_int tot / of_int n) - step_of tot n f)
            - f * (of_int tot / of_int n)\<bar> \<le> (1::rat)"
proof -
  let ?pn = "of_int tot / of_int n :: rat"
  let ?x = "?pn * (1 - f)"
  let ?r = "py_round ?pn"
  let ?step = "step_of tot n f"
  have pn1: "1 \<le> ?pn" using n nT by (simp add: pos_le_divide_eq)
  then have pn0: "0 \<le> ?pn" by simp
  from frac_of_nominal [OF f pn0] have fp: "0 \<le> f * ?pn" "f * ?pn \<le> ?pn / 2"
    by simp_all
  have x: "?x = ?pn - f * ?pn" by (rule scale_one_minus)
  have ru: "of_int ?r \<le> ?pn + 1 / 2" by (rule py_round_upper)
  have rl: "?pn - 1 / 2 \<le> of_int ?r" by (rule py_round_lower)
  have xu: "of_int (py_round ?x) \<le> ?x + 1 / 2" by (rule py_round_upper)
  have xl: "?x - 1 / 2 \<le> of_int (py_round ?x)" by (rule py_round_lower)
  have ge: "0 \<le> ?r - ?step"
    using round_nominal_ge_step [of n tot f] n nT f(1) by simp
  have "py_round ?x \<le> ?step" by (simp add: step_of_def Let_def)
  then have "(of_int (py_round ?x) :: rat) \<le> of_int ?step" by (simp only: of_int_le_iff)
  with xl have sl: "?x - 1 / 2 \<le> of_int ?step" by (rule order_trans)
  have half: "1 / 2 \<le> ?x" unfolding x using fp(2) pn1 by (rule half_arith)
  have su: "of_int ?step \<le> ?x + 1 / 2 \<or> ((of_int ?step :: rat) = 1 \<and> 1 / 2 \<le> ?x)"
    using step_of_cases [of tot n f]
  proof
    assume "?step = py_round ?x"
    with xu show ?thesis by simp
  next
    assume "?step = 1 \<and> py_round ?x < 1"
    then have "(of_int ?step :: rat) = 1" by simp
    with half show ?thesis by blast
  qed
  have "\<bar>of_int ?r - of_int ?step - f * ?pn\<bar> \<le> (1::rat)"
    using x ru rl sl su by (rule tolerance_arith)
  with ge show ?thesis by simp
qed

text \<open>In the rebuilt list neighbours share at most one pixel, and the nominal part size
  is at most 2 whenever the rebuild is taken.\<close>

lemma even_overlap_arith:
  fixes a b c T :: int
  assumes "0 \<le> a" and "a \<le> b" and "b \<le> c" and "c \<le> T" and "1 \<le> T"
  shows "0 \<le> min (max (max 0 (min (T - 1) a) + 1) (min T b))
                (max (max 0 (min (T - 1) b) + 1) (min T c))
              - max (max 0 (min (T - 1) a)) (max 0 (min (T - 1) b))
       \<and> min (max (max 0 (min (T - 1) a) + 1) (min T b))
                (max (max 0 (min (T - 1) b) + 1) (min T c))
              - max (max 0 (min (T - 1) a)) (max 0 (min (T - 1) b)) \<le> 1"
proof -
  have A: "max 0 (min (T - 1) a) = min (T - 1) a" using assms by simp
  have B: "max 0 (min (T - 1) b) = min (T - 1) b" using assms by simp
  have b: "min T b = b" and c: "min T c = c" using assms by simp_all
  have AB: "max (min (T - 1) a) (min (T - 1) b) = min (T - 1) b" using assms by simp
  have E: "min (max (min (T - 1) a + 1) b) (max (min (T - 1) b + 1) c)
             = max (min (T - 1) a + 1) b"
    using assms by (simp add: max_def min_def)
  have "0 \<le> max (min (T - 1) a + 1) b - min (T - 1) b
      \<and> max (min (T - 1) a + 1) b - min (T - 1) b \<le> 1"
    using assms by (simp add: max_def min_def)
  then show ?thesis unfolding A B b c AB E .
qed

lemma fallback_overlap:
  assumes T: "1 \<le> total_of (h, w) axis" and n: "1 \<le> n" and i: "0 \<le> i" "i + 1 < n"
  shows "0 \<le> overlap_len axis
                (final_box h w (even_box h w (total_of (h, w) axis) n axis i))
                (final_box h w (even_box h w (total_of (h, w) axis) n axis (i + 1)))
       \<and> overlap_len axis
                (final_box h w (even_box h w (total_of (h, w) axis) n axis i))
                (final_box h w (even_box h w (total_of (h, w) axis) n axis (i + 1))) \<le> 1"
proof -
  let ?T = "total_of (h, w) axis"
  let ?s = "\<lambda>i. py_round (of_int i * (of_int ?T / of_int n))"
  have T0: "0 \<le> ?T" and n0: "0 < n" using T n by simp_all
  have a: "0 \<le> ?s i"
    using even_start_range [OF T0 n0, of i] i by simp
  have ab: "?s i \<le> ?s (i + 1)"
    by (rule even_start_mono [OF T0 n0]) simp
  have bc: "?s (i + 1) \<le> ?s (i + 1 + 1)"
    by (rule even_start_mono [OF T0 n0]) simp
  have c: "?s (i + 1 + 1) \<le> ?T"
    using even_start_range [OF T0 n0, of "i + 1 + 1"] i by simp
  show ?thesis
    unfolding overlap_len_def axis_start_final_box axis_end_final_box
      axis_start_even_box axis_end_even_box
    using a ab bc c T by (rule even_overlap_arith)
qed

lemma nominal_small_arith:
  fixes s t p m :: rat
  assumes "t \<le> m * s" and "s \<le> p + 1 / 2 \<or> s = 1" and "t = (m + 1) * p"
    and "m = 1 \<or> m = 2 \<or> m = 3 \<or> m = 4"
  shows "p \<le> 2"
proof -
  consider "m = 1" | "m = 2" | "m = 3" | "m = 4" using assms(4) by blast
  then show ?thesis
  proof cases
    case 1
    with assms(1,2,3) show ?thesis by (elim disjE) simp_all
  next
    case 2
    with assms(1,2,3) show ?thesis by (elim disjE) simp_all
  next
    case 3
    with assms(1,2,3) show ?thesis by (elim disjE) simp_all
  next
    case 4
    with assms(1,2,3) show ?thesis by (elim disjE) simp_all
  qed
qed

lemma fallback_nominal_small:
  assumes n: "2 \<le> n" "n \<le> 5" and f: "0 \<le> f" and T: "0 \<le> tot"
    and fb: "tot \<le> (n - 1) * step_of tot n f"
  shows "of_int tot / of_int n \<le> (2::rat)"
proof -
  let ?pn = "of_int tot / of_int n :: rat"
  let ?x = "?pn * (1 - f)"
  let ?step = "step_of tot n f"
  have pn0: "0 \<le> ?pn" using n T by simp
  have "?pn * (1 - f) \<le> ?pn * 1"
    using f pn0 by (intro mult_left_mono) simp_all
  then have xp: "?x \<le> ?pn" by simp
  have xu: "of_int (py_round ?x) \<le> ?x + 1 / 2" by (rule py_round_upper)
  have s: "of_int ?step \<le> ?pn + 1 / 2 \<or> (of_int ?step :: rat) = 1"
    using step_of_cases [of tot n f]
  proof
    assume "?step = py_round ?x"
    with xu xp show ?thesis by simp
  next
    assume "?step = 1 \<and> py_round ?x < 1"
    then show ?thesis by simp
  qed
  have "(of_int tot :: rat) \<le> of_int ((n - 1) * ?step)"
    using fb by (simp only: of_int_le_iff)
  then have t: "(of_int tot :: rat) \<le> (of_int n - 1) * of_int ?step" by simp
  have p: "(of_int tot :: rat) = (of_int n - 1 + 1) * ?pn" using n by simp
  have m: "(of_int n - 1 :: rat) = 1 \<or> (of_int n - 1 :: rat) = 2
         \<or> (of_int n - 1 :: rat) = 3 \<or> (of_int n - 1 :: rat) = 4"
    using n by (cases rule: part_count_cases) simp_all
  from t s p m show ?thesis by (rule nominal_small_arith)
qed

lemma unit_tolerance_arith:
  fixes fp p :: rat
  assumes "0 \<le> v" and "v \<le> (1::int)" and "0 \<le> fp" and "fp \<le> p / 2" and "p \<le> 2"
  shows "\<bar>of_int v - fp\<bar> \<le> 1"
proof -
  have "(0::rat) \<le> of_int v" "(of_int v :: rat) \<le> 1"
    using assms(1,2) by simp_all
  with assms(3,4,5) show ?thesis by linarith
qed

lemma map_upto_adjacent:
  assumes "\<And>i. 0 \<le> i \<Longrightarrow> i + 1 < n \<Longrightarrow> P (G i) (G (i + 1))"
  shows "\<forall>k. Suc k < length (map G [0..n - 1]) \<longrightarrow>
           P (map G [0..n - 1] ! k) (map G [0..n - 1] ! Suc k)"
proof (intro allI impI)
  fix k assume "Suc k < length (map G [0..n - 1])"
  then have k: "int k + 1 < n" by simp
  have "map G [0..n - 1] ! k = G (int k)" "map G [0..n - 1] ! Suc k = G (int k + 1)"
    using k by (simp_all add: add.commute)
  with assms [of "int k"] k
  show "P (map G [0..n - 1] ! k) (map G [0..n - 1] ! Suc k)" by simp
qed

text \<open>
  C4, as stated: for every valid input with a positive overlap fraction, neighbouring
  boxes overlap by a positive amount that differs from
  \<open>overlap_frac * (total / num_parts)\<close> by at most 1. The first half fails: for a width
  of 1000, two parts and the overlap fraction 1/1024 the step rounds to the nominal size
  500, and the two boxes \<open>[0, 500)\<close> and \<open>[500, 1000)\<close> only touch.
\<close>

theorem overlap_positive_counterexample:
  "split_image_with_overlap (1, 1000) 2 (1 / 1024) 1 = Inr [(0, 1, 0, 500), (0, 1, 500, 1000)]
   \<and> overlap_len 1 (0, 1, 0, 500) (0, 1, 500, 1000) = 0
   \<and> (0::rat) < 1 / 1024 \<and> (1 / 1024 :: rat) \<le> 1 / 2"
  by code_simp

text \<open>
  C4, amended: for every valid input with a positive overlap fraction, the ranges of
  neighbouring boxes along the split axis have a common part of length at least 0 (they
  never leave a gap, and may only touch), and that length differs from
  \<open>overlap_frac * (total / num_parts)\<close> by at most 1.
\<close>

theorem split_overlap_amount:
  assumes "1 \<le> total_of (h, w) axis"
    and "2 \<le> num_parts" and "num_parts \<le> 5"
    and "0 < overlap_frac" and "overlap_frac \<le> 1 / 2"
  shows "\<exists>bs. split_image_with_overlap (h, w) num_parts overlap_frac axis = Inr bs
              \<and> (\<forall>k. Suc k < length bs \<longrightarrow>
                     0 \<le> overlap_len axis (bs ! k) (bs ! Suc k)
                     \<and> \<bar>of_int (overlap_len axis (bs ! k) (bs ! Suc k))
                          - overlap_frac * (of_int (total_of (h, w) axis) / of_int num_parts)\<bar>
                         \<le> (1::rat))"
proof (cases "(num_parts - 1) * step_of (total_of (h, w) axis) num_parts overlap_frac
                < total_of (h, w) axis")
  case True
  let ?T = "total_of (h, w) axis"
  let ?step = "step_of ?T num_parts overlap_frac"
  let ?pn = "of_int ?T / of_int num_parts :: rat"
  let ?G = "\<lambda>i. final_box h w (stride_box h w ?T num_parts axis ?pn ?step i)"
  let ?P = "\<lambda>a b. 0 \<le> overlap_len axis a b
              \<and> \<bar>of_int (overlap_len axis a b) - overlap_frac * ?pn\<bar> \<le> (1::rat)"
  have f0: "0 \<le> overlap_frac" using assms(4) by simp
  have "(num_parts - 1) * 1 \<le> (num_parts - 1) * ?step"
    using step_of_ge1 [of ?T num_parts overlap_frac] assms(2)
    by (intro mult_left_mono) simp_all
  with True have nT: "num_parts \<le> ?T" by simp
  have pair: "?P (?G i) (?G (i + 1))" if "0 \<le> i" "i + 1 < num_parts" for i
    unfolding main_overlap [OF assms(2,3) f0 True that]
    by (rule main_overlap_tolerance [OF assms(2) f0 assms(5) nT])
  have "\<forall>k. Suc k < length (map ?G [0..num_parts - 1]) \<longrightarrow>
      ?P (map ?G [0..num_parts - 1] ! k) (map ?G [0..num_parts - 1] ! Suc k)"
    by (rule map_upto_adjacent [where P = ?P and G = ?G and n = num_parts, OF pair])
  then have adj: "\<forall>k. Suc k < length (map ?G [0..num_parts - 1]) \<longrightarrow>
      ?P (map ?G [0..num_parts - 1] ! k) (map ?G [0..num_parts - 1] ! Suc k)" .
  have "1 \<le> num_parts" using assms(2) by simp
  from split_main [OF this True]
  have res: "split_image_with_overlap (h, w) num_parts overlap_frac axis
          = Inr (map ?G [0..num_parts - 1])" .
  show ?thesis
    by (rule exI [of _ "map ?G [0..num_parts - 1]"], rule conjI, rule res, rule adj)
next
  case False
  let ?T = "total_of (h, w) axis"
  let ?pn = "of_int ?T / of_int num_parts :: rat"
  let ?G = "\<lambda>i. final_box h w (even_box h w ?T num_parts axis i)"
  let ?P = "\<lambda>a b. 0 \<le> overlap_len axis a b
              \<and> \<bar>of_int (overlap_len axis a b) - overlap_frac * ?pn\<bar> \<le> (1::rat)"
  from False have fb: "?T \<le> (num_parts - 1) * step_of ?T num_parts overlap_frac" by simp
  have f0: "0 \<le> overlap_frac" using assms(4) by simp
  have T0: "0 \<le> ?T" using assms(1) by simp
  have n1: "1 \<le> num_parts" using assms(2) by simp
  have pn0: "0 \<le> ?pn" using T0 n1 by simp
  have small: "?pn \<le> 2"
    by (rule fallback_nominal_small [OF assms(2,3) f0 T0 fb])
  from frac_of_nominal [OF f0 assms(5) pn0]
  have fp: "0 \<le> overlap_frac * ?pn" "overlap_frac * ?pn \<le> ?pn / 2" by simp_all
  have pair: "?P (?G i) (?G (i + 1))" if "0 \<le> i" "i + 1 < num_parts" for i
  proof -
    from fallback_overlap [OF assms(1) n1 that]
    have v: "0 \<le> overlap_len axis (?G i) (?G (i + 1))"
      "overlap_len axis (?G i) (?G (i + 1)) \<le> 1" by simp_all
    from unit_tolerance_arith [OF v fp small] v(1) show ?thesis by (rule conjI [rotated])
  qed
  have "\<forall>k. Suc k < length (map ?G [0..num_parts - 1]) \<longrightarrow>
      ?P (map ?G [0..num_parts - 1] ! k) (map ?G [0..num_parts - 1] ! Suc k)"
    by (rule map_upto_adjacent [where P = ?P and G = ?G and n = num_parts, OF pair])
  then have adj: "\<forall>k. Suc k < length (map ?G [0..num_parts - 1]) \<longrightarrow>
      ?P (map ?G [0..num_parts - 1] ! k) (map ?G [0..num_parts - 1] ! Suc k)" .
  from split_fallback [OF assms(2) fb]
  have res: "split_image_with_overlap (h, w) num_parts overlap_frac axis
          = Inr (map ?G [0..num_parts - 1])" .
  show ?thesis
    by (rule exI [of _ "map ?G [0..num_parts - 1]"], rule conjI, rule res, rule adj)
qed

theorem split_overlap_amount_witness:
  "\<exists>bs. split_image_with_overlap (600, 1000) 3 (1 / 5) 1 = Inr bs
        \<and> (\<forall>k. Suc k < length bs \<longrightarrow>
               0 \<le> overlap_len 1 (bs ! k) (bs ! Suc k)
               \<and> \<bar>of_int (overlap_len 1 (bs ! k) (bs ! Suc k)) - (1 / 5) * (of_int 1000 / of_int 3)\<bar>
                   \<le> (1::rat))"
  using split_overlap_amount [of 600 1000 1 3 "1 / 5"] by (simp add: total_of_def)

section \<open>The rebuild by even spacing\<close>

lemma rebuild_nth:
  assumes "0 \<le> i" and "i < n"
  shows "rebuild h w tot n axis ! nat i = even_box h w tot n axis i"
  using assms by (simp add: rebuild_def)

lemma py_round_fifths:
  "py_round 0 = 0" "py_round (1 / 5) = 0" "py_round (2 / 5) = 0" "py_round (4 / 5) = 1"
  "py_round (6 / 5) = 1" "py_round (8 / 5) = 2" "py_round 2 = 2"
  by code_simp+

lemma upto_0_4: "[0..4] = [0, 1, 2, 3, 4::int]"
  by (simp add: upto_rec1)

text \<open>
  C5. Whenever the stride loop has appended fewer than \<open>num_parts\<close> boxes, its boxes
  are dropped and the list is rebuilt by even spacing: the function returns the last loop's
  repair of the rebuilt list, whose box \<open>i\<close> spans
  \<open>[round (i * total / num_parts), round ((i + 1) * total / num_parts))\<close> along the split
  axis, so that consecutive rebuilt boxes touch and do not overlap. In particular, for a
  total extent of 2, five parts and the overlap fraction 1/2 the function returns exactly
  five non-empty boxes, each one pixel wide along the split axis, inside \<open>[0, 2)\<close>.
\<close>

theorem fallback_rebuilds_evenly:
  assumes "num_parts \<noteq> 0"
    and "int (length (stride_loop h w (total_of (h, w) axis) num_parts axis
                 (of_int (total_of (h, w) axis) / of_int num_parts)
                 (step_of (total_of (h, w) axis) num_parts overlap_frac)
                 [0..num_parts - 1] 0)) < num_parts"
  shows "split_image_with_overlap (h, w) num_parts overlap_frac axis
           = Inr (map (final_box h w) (rebuild h w (total_of (h, w) axis) num_parts axis))
       \<and> int (length (rebuild h w (total_of (h, w) axis) num_parts axis)) = num_parts
       \<and> (\<forall>i. 0 \<le> i \<and> i < num_parts \<longrightarrow>
             axis_start axis (rebuild h w (total_of (h, w) axis) num_parts axis ! nat i)
               = py_round (of_int i * (of_int (total_of (h, w) axis) / of_int num_parts))
             \<and> axis_end axis (rebuild h w (total_of (h, w) axis) num_parts axis ! nat i)
               = py_round (of_int (i + 1) * (of_int (total_of (h, w) axis) / of_int num_parts)))
       \<and> (\<forall>i. 0 \<le> i \<and> i + 1 < num_parts \<longrightarrow>
             axis_end axis (rebuild h w (total_of (h, w) axis) num_parts axis ! nat i)
               = axis_start axis (rebuild h w (total_of (h, w) axis) num_parts axis ! nat (i + 1))
             \<and> axis_range axis (rebuild h w (total_of (h, w) axis) num_parts axis ! nat i)
                 \<inter> axis_range axis (rebuild h w (total_of (h, w) axis) num_parts axis ! nat (i + 1))
                 = {})
       \<and> (\<forall>h'. 1 \<le> h' \<longrightarrow>
             split_image_with_overlap (h', 2) 5 (1 / 2) 1
               = Inr [(0, h', 0, 1), (0, h', 0, 1), (0, h', 1, 2), (0, h', 1, 2), (0, h', 1, 2)])
       \<and> (\<forall>w'. 1 \<le> w' \<longrightarrow>
             split_image_with_overlap (2, w') 5 (1 / 2) 0
               = Inr [(0, 1, 0, w'), (0, 1, 0, w'), (1, 2, 0, w'), (1, 2, 0, w'), (1, 2, 0, w')])"
proof (intro conjI allI impI)
  let ?T = "total_of (h, w) axis"
  let ?rb = "rebuild h w ?T num_parts axis"
  show "split_image_with_overlap (h, w) num_parts overlap_frac axis
          = Inr (map (final_box h w) ?rb)"
    using assms by (simp add: split_image_with_overlap_def Let_def)
  have pos: "0 \<le> num_parts" using assms(2) by linarith
  then show "int (length ?rb) = num_parts" by (rule length_rebuild)
  show "axis_start axis (?rb ! nat i) = py_round (of_int i * (of_int ?T / of_int num_parts))"
    if "0 \<le> i \<and> i < num_parts" for i
    using that by (simp add: rebuild_nth axis_start_even_box)
  show "axis_end axis (?rb ! nat i) = py_round (of_int (i + 1) * (of_int ?T / of_int num_parts))"
    if "0 \<le> i \<and> i < num_parts" for i
    using that by (simp add: rebuild_nth axis_end_even_box)
  show touch: "axis_end axis (?rb ! nat i) = axis_start axis (?rb ! nat (i + 1))"
    if "0 \<le> i \<and> i + 1 < num_parts" for i
  proof -
    have "?rb ! nat i = even_box h w ?T num_parts axis i"
      using that by (intro rebuild_nth) simp_all
    moreover have "?rb ! nat (i + 1) = even_box h w ?T num_parts axis (i + 1)"
      using that by (intro rebuild_nth) simp_all
    ultimately show ?thesis
      by (simp only: axis_start_even_box axis_end_even_box)
  qed
  show "axis_range axis (?rb ! nat i) \<inter> axis_range axis (?rb ! nat (i + 1)) = {}"
    if "0 \<le> i \<and> i + 1 < num_parts" for i
    unfolding axis_range_def touch [OF that] by auto
  show "split_image_with_overlap (h', 2) 5 (1 / 2) 1
          = Inr [(0, h', 0, 1), (0, h', 0, 1), (0, h', 1, 2), (0, h', 1, 2), (0, h', 1, 2)]"
    if "1 \<le> h'" for h'
    using that
    by (simp add: split_image_with_overlap_def total_of_def step_of_def rebuild_def even_box_def
        final_box_def py_round_fifths upto_0_4 Let_def)
  show "split_image_with_overlap (2, w') 5 (1 / 2) 0
          = Inr [(0, 1, 0, w'), (0, 1, 0, w'), (1, 2, 0, w'), (1, 2, 0, w'), (1, 2, 0, w')]"
    if "1 \<le> w'" for w'
    using that
    by (simp add: split_image_with_overlap_def total_of_def step_of_def rebuild_def even_box_def
        final_box_def py_round_fifths upto_0_4 Let_def)
qed

theorem fallback_rebuilds_evenly_witness:
  "split_image_with_overlap (3, 2) 5 (1 / 2) 1
     = Inr (map (final_box 3 2) (rebuild 3 2 (total_of (3, 2) 1) 5 1))
   \<and> int (length (rebuild 3 2 (total_of (3, 2) 1) 5 1)) = 5"
proof -
  have short: "int (length (stride_loop 3 2 (total_of (3, 2) 1) 5 1
                 (of_int (total_of (3, 2) 1) / of_int 5)
                 (step_of (total_of (3, 2) 1) 5 (1 / 2)) [0..5 - 1] 0)) < 5"
    by code_simp
  have "(5::int) \<noteq> 0" by simp
  from fallback_rebuilds_evenly [OF this short]
  show ?thesis by simp
qed

end
